theory Spec2Isabelle
  imports Complex_Main
begin

section \<open>Go primitives used by the program\<close>

subsection \<open>Machine integers\<close>

text \<open>
  Go's \<^verbatim>\<open>int\<close> is 64 bits wide on the platforms the tool is built for. Values are
  modelled as \<^typ>\<open>int\<close> inside the signed 64-bit range, with the two's-complement
  wrap-around of \<^verbatim>\<open>+\<close>, \<^verbatim>\<open>*\<close> and \<^verbatim>\<open>/\<close> written out.
\<close>

definition maxInt64 :: int where
  "maxInt64 = 9223372036854775807"

definition minInt64 :: int where
  "minInt64 = - 9223372036854775808"

definition maxUint64 :: int where
  "maxUint64 = 18446744073709551615"

definition in_int64 :: "int \<Rightarrow> bool" where
  "in_int64 x = (minInt64 \<le> x \<and> x \<le> maxInt64)"

definition int64_wrap :: "int \<Rightarrow> int" where
  "int64_wrap x = (x + 9223372036854775808) mod 18446744073709551616 - 9223372036854775808"

definition go_add :: "int \<Rightarrow> int \<Rightarrow> int" where
  "go_add a b = int64_wrap (a + b)"

definition go_mul :: "int \<Rightarrow> int \<Rightarrow> int" where
  "go_mul a b = int64_wrap (a * b)"

text \<open>The quotient truncated towards zero, as Go's \<^verbatim>\<open>/\<close> on integers computes it.\<close>

definition trunc_quo :: "int \<Rightarrow> int \<Rightarrow> int" where
  "trunc_quo a b = sgn a * sgn b * (\<bar>a\<bar> div \<bar>b\<bar>)"

text \<open>
  Go's \<^verbatim>\<open>a / b\<close> for a non-zero divisor; the only overflow is the most negative value
  divided by \<open>-1\<close>, which wraps. (A zero divisor panics; the program never divides by
  zero, see \<open>ParseFrameRate\<close>.)
\<close>

definition go_quo :: "int \<Rightarrow> int \<Rightarrow> int" where
  "go_quo a b = int64_wrap (trunc_quo a b)"

subsection \<open>\<^verbatim>\<open>strconv.Atoi\<close>\<close>

datatype num_error = ErrSyntax | ErrRange

definition is_digit :: "char \<Rightarrow> bool" where
  "is_digit c = (48 \<le> (of_char c :: int) \<and> (of_char c :: int) \<le> 57)"

definition digit_val :: "char \<Rightarrow> int" where
  "digit_val c = of_char c - 48"

text \<open>
  The digit loop of \<^verbatim>\<open>strconv.ParseUint(s, 10, 64)\<close>: a byte that is no decimal digit
  ends the scan with a syntax error and the value 0; a value beyond \<open>2^64 - 1\<close> ends it
  at once with a range error and the largest value, before any later byte is looked at.
\<close>

fun ParseUint_loop :: "int \<Rightarrow> string \<Rightarrow> int \<times> num_error option" where
  "ParseUint_loop n [] = (n, None)"
| "ParseUint_loop n (c # cs) =
     (if \<not> is_digit c then (0, Some ErrSyntax)
      else if n \<ge> maxUint64 div 10 + 1 then (maxUint64, Some ErrRange)
      else if n * 10 + digit_val c > maxUint64 then (maxUint64, Some ErrRange)
      else ParseUint_loop (n * 10 + digit_val c) cs)"

definition ParseUint :: "string \<Rightarrow> int \<times> num_error option" where
  "ParseUint s = (if s = [] then (0, Some ErrSyntax) else ParseUint_loop 0 s)"

text \<open>\<^verbatim>\<open>strconv.ParseInt(s, 10, 0)\<close>: an optional sign, then \<^verbatim>\<open>ParseUint\<close>, then the signed range.\<close>

definition ParseInt :: "string \<Rightarrow> int \<times> num_error option" where
  "ParseInt s =
     (if s = [] then (0, Some ErrSyntax)
      else
        let neg = (hd s = CHR ''-'');
            body = (if hd s = CHR ''+'' \<or> hd s = CHR ''-'' then tl s else s);
            un = fst (ParseUint body);
            err = snd (ParseUint body)
        in if err = Some ErrSyntax then (0, err)
           else if \<not> neg \<and> un \<ge> 9223372036854775808 then (maxInt64, Some ErrRange)
           else if neg \<and> un > 9223372036854775808 then (minInt64, Some ErrRange)
           else (if neg then - un else un, None))"

text \<open>
  \<^verbatim>\<open>strconv.Atoi\<close> is \<^verbatim>\<open>ParseInt(s, 10, 0)\<close>; its fast path for short strings returns
  the same results.
\<close>

definition Atoi :: "string \<Rightarrow> int \<times> num_error option" where
  "Atoi s = ParseInt s"

subsection \<open>\<^verbatim>\<open>strings.Split\<close>, \<^verbatim>\<open>strings.TrimSpace\<close>, \<^verbatim>\<open>strings.HasSuffix\<close>, \<^verbatim>\<open>strings.TrimSuffix\<close>\<close>

text \<open>\<^verbatim>\<open>strings.Split(s, sep)\<close> for a one-byte separator: the pieces between the separators.\<close>

fun Split :: "string \<Rightarrow> char \<Rightarrow> string list" where
  "Split [] sep = [[]]"
| "Split (c # cs) sep =
     (if c = sep then [] # Split cs sep
      else (c # hd (Split cs sep)) # tl (Split cs sep))"

text \<open>
  The UTF-8 encodings of the code points for which \<^verbatim>\<open>unicode.IsSpace\<close> holds: tab, line
  feed, vertical tab, form feed, carriage return, space, U+0085, U+00A0, U+1680,
  U+2000 to U+200A, U+2028, U+2029, U+202F, U+205F and U+3000.
\<close>

definition space_encodings :: "string list" where
  "space_encodings =
     [[CHR 0x09], [CHR 0x0A], [CHR 0x0B], [CHR 0x0C], [CHR 0x0D], [CHR 0x20],
      [CHR 0xC2, CHR 0x85], [CHR 0xC2, CHR 0xA0],
      [CHR 0xE1, CHR 0x9A, CHR 0x80],
      [CHR 0xE2, CHR 0x80, CHR 0x80], [CHR 0xE2, CHR 0x80, CHR 0x81],
      [CHR 0xE2, CHR 0x80, CHR 0x82], [CHR 0xE2, CHR 0x80, CHR 0x83],
      [CHR 0xE2, CHR 0x80, CHR 0x84], [CHR 0xE2, CHR 0x80, CHR 0x85],
      [CHR 0xE2, CHR 0x80, CHR 0x86], [CHR 0xE2, CHR 0x80, CHR 0x87],
      [CHR 0xE2, CHR 0x80, CHR 0x88], [CHR 0xE2, CHR 0x80, CHR 0x89],
      [CHR 0xE2, CHR 0x80, CHR 0x8A],
      [CHR 0xE2, CHR 0x80, CHR 0xA8], [CHR 0xE2, CHR 0x80, CHR 0xA9],
      [CHR 0xE2, CHR 0x80, CHR 0xAF], [CHR 0xE2, CHR 0x81, CHR 0x9F],
      [CHR 0xE3, CHR 0x80, CHR 0x80]]"

text \<open>The length of the white-space rune a string starts with, 0 when it starts with none.\<close>

definition leading_space :: "string \<Rightarrow> nat" where
  "leading_space s =
     (case filter (\<lambda>e. take (length e) s = e) space_encodings of
        [] \<Rightarrow> 0
      | e # _ \<Rightarrow> length e)"

text \<open>\<^verbatim>\<open>strings.TrimLeftFunc(s, unicode.IsSpace)\<close>: drop white-space runes from the front.\<close>

function TrimLeftSpace :: "string \<Rightarrow> string" where
  "TrimLeftSpace s =
     (if leading_space s = 0 then s else TrimLeftSpace (drop (leading_space s) s))"
  by pat_completeness auto
termination
proof (relation "measure length")
  show "wf (measure length)" by simp
next
  fix s :: string
  assume nz: "leading_space s \<noteq> 0"
  then obtain e es where f: "filter (\<lambda>e. take (length e) s = e) space_encodings = e # es"
    by (auto simp: leading_space_def split: list.splits)
  then have "e \<in> set (filter (\<lambda>e. take (length e) s = e) space_encodings)"
    by simp
  then have "take (length e) s = e"
    by simp
  then have "length e \<le> length s"
    by (metis length_take min.cobounded1)
  moreover have "leading_space s = length e"
    using f by (simp add: leading_space_def)
  ultimately show "(drop (leading_space s) s, s) \<in> measure length"
    using nz by (cases e) auto
qed

text \<open>The length of the white-space rune a string ends with, 0 when it ends with none.\<close>

definition trailing_space :: "string \<Rightarrow> nat" where
  "trailing_space s =
     (case filter (\<lambda>e. length e \<le> length s \<and> drop (length s - length e) s = e)
             space_encodings of
        [] \<Rightarrow> 0
      | e # _ \<Rightarrow> length e)"

text \<open>\<^verbatim>\<open>strings.TrimRightFunc(s, unicode.IsSpace)\<close>: drop white-space runes from the back.\<close>

function TrimRightSpace :: "string \<Rightarrow> string" where
  "TrimRightSpace s =
     (if trailing_space s = 0 then s
      else TrimRightSpace (take (length s - trailing_space s) s))"
  by pat_completeness auto
termination
proof (relation "measure length")
  show "wf (measure length)" by simp
next
  fix s :: string
  assume nz: "trailing_space s \<noteq> 0"
  then obtain e es where
    f: "filter (\<lambda>e. length e \<le> length s \<and> drop (length s - length e) s = e)
          space_encodings = e # es"
    by (auto simp: trailing_space_def split: list.splits)
  then have
    "e \<in> set (filter (\<lambda>e. length e \<le> length s \<and> drop (length s - length e) s = e)
          space_encodings)"
    by simp
  then have "length e \<le> length s"
    by simp
  moreover have "trailing_space s = length e"
    using f by (simp add: trailing_space_def)
  ultimately show "(take (length s - trailing_space s) s, s) \<in> measure length"
    using nz by (cases e) auto
qed

definition TrimSpace :: "string \<Rightarrow> string" where
  "TrimSpace s = TrimRightSpace (TrimLeftSpace s)"

definition HasSuffix :: "string \<Rightarrow> string \<Rightarrow> bool" where
  "HasSuffix s suffix =
     (length suffix \<le> length s \<and> drop (length s - length suffix) s = suffix)"

definition TrimSuffix :: "string \<Rightarrow> string \<Rightarrow> string" where
  "TrimSuffix s suffix =
     (if HasSuffix s suffix then take (length s - length suffix) s else s)"

section \<open>Package \<^verbatim>\<open>utils\<close>\<close>

text \<open>
  \<^verbatim>\<open>ParseFrameRate\<close> (utils.go): both \<^verbatim>\<open>Atoi\<close> errors are discarded, a zero denominator
  is replaced by 1, and any number of parts other than two gives 30.
\<close>

definition ParseFrameRate :: "string \<Rightarrow> int" where
  "ParseFrameRate frameRate =
     (let parts = Split (TrimSpace frameRate) (CHR ''/'')
      in if length parts = 2 then
           (let numerator = fst (Atoi (parts ! 0));
                denominator = fst (Atoi (parts ! 1));
                denominator' = (if denominator = 0 then 1 else denominator)
            in go_quo numerator denominator')
         else 30)"

text \<open>\<^verbatim>\<open>ParseBitrate\<close> (utils.go): the \<^verbatim>\<open>Atoi\<close> error is discarded.\<close>

definition ParseBitrate :: "string \<Rightarrow> int" where
  "ParseBitrate bitrate =
     (if HasSuffix bitrate ''k'' then fst (Atoi (TrimSuffix bitrate ''k'')) else 1000)"

section \<open>Reading integers, as the specification words it\<close>

text \<open>
  A string of decimal digits and the number it denotes in positional notation, least
  significant digit last.
\<close>

definition digit_string :: "string \<Rightarrow> bool" where
  "digit_string s = (s \<noteq> [] \<and> list_all is_digit s)"

fun value_lsd_first :: "string \<Rightarrow> int" where
  "value_lsd_first [] = 0"
| "value_lsd_first (c # cs) = digit_val c + 10 * value_lsd_first cs"

definition decimal_value :: "string \<Rightarrow> int" where
  "decimal_value s = value_lsd_first (rev s)"

text \<open>
  The integer a string denotes: an optional sign and a digit string. \<open>None\<close> when the
  string has any other form.
\<close>

definition int_literal :: "string \<Rightarrow> int option" where
  "int_literal s =
     (case s of
        [] \<Rightarrow> None
      | c # cs \<Rightarrow>
          if c = CHR ''-'' then (if digit_string cs then Some (- decimal_value cs) else None)
          else if c = CHR ''+'' then (if digit_string cs then Some (decimal_value cs) else None)
          else (if digit_string s then Some (decimal_value s) else None))"

text \<open>A string parses as an integer when it denotes one inside the range of \<^verbatim>\<open>int\<close>.\<close>

definition parses_as :: "string \<Rightarrow> int \<Rightarrow> bool" where
  "parses_as s n = (int_literal s = Some n \<and> in_int64 n)"

definition parses :: "string \<Rightarrow> bool" where
  "parses s = (case int_literal s of None \<Rightarrow> False | Some n \<Rightarrow> in_int64 n)"

text \<open>
  What is read in place of a part whose parse error is ignored: the integer, when the
  part parses; the nearest bound of \<^verbatim>\<open>int\<close>, when its leading digits (after the
  optional sign) already exceed \<open>2^64 - 1\<close> or it is an integer out of range; and 0
  otherwise.
\<close>

definition clamp_int64 :: "int \<Rightarrow> int" where
  "clamp_int64 n = max minInt64 (min maxInt64 n)"

definition read_int :: "string \<Rightarrow> int" where
  "read_int s =
     (let neg = (s \<noteq> [] \<and> hd s = CHR ''-'');
          body = (if s \<noteq> [] \<and> (hd s = CHR ''+'' \<or> hd s = CHR ''-'') then tl s else s);
          lead = takeWhile is_digit body;
          v = (if neg then - decimal_value lead else decimal_value lead)
      in if body = [] then 0
         else if decimal_value lead > maxUint64 then clamp_int64 v
         else if lead \<noteq> body then 0
         else clamp_int64 v)"

text \<open>The quotient the frame-rate rule forms from a numerator and a denominator.\<close>

definition frame_quotient :: "int \<Rightarrow> int \<Rightarrow> int" where
  "frame_quotient N D = (if D = 0 then N else int64_wrap (trunc_quo N D))"

subsection \<open>\<^verbatim>\<open>strconv.Itoa\<close> and the verb \<^verbatim>\<open>%d\<close>\<close>

definition digit_char :: "int \<Rightarrow> char" where
  "digit_char d = char_of (48 + d)"

function show_nonneg :: "int \<Rightarrow> string" where
  "show_nonneg n =
     (if n < 10 then [digit_char n] else show_nonneg (n div 10) @ [digit_char (n mod 10)])"
  by pat_completeness auto
termination
  by (relation "measure nat") auto

definition Itoa :: "int \<Rightarrow> string" where
  "Itoa i = (if i < 0 then CHR ''-'' # show_nonneg (- i) else show_nonneg i)"

subsection \<open>\<^verbatim>\<open>path/filepath\<close> with the separator \<open>/\<close>\<close>

text \<open>
  \<^verbatim>\<open>filepath.Clean\<close>, on the elements of the path: empty elements and \<open>.\<close> are dropped, an
  inner \<open>..\<close> removes the element before it, a \<open>..\<close> with nothing to remove is dropped in
  a rooted path and kept otherwise; the empty result is \<open>.\<close>.
\<close>

fun clean_elems :: "bool \<Rightarrow> string list \<Rightarrow> string list \<Rightarrow> string list" where
  "clean_elems rooted out [] = out"
| "clean_elems rooted out (e # es) =
     (if e = [] \<or> e = ''.'' then clean_elems rooted out es
      else if e = ''..'' then
        (if out \<noteq> [] \<and> last out \<noteq> ''..'' then clean_elems rooted (butlast out) es
         else if rooted then clean_elems rooted out es
         else clean_elems rooted (out @ [e]) es)
      else clean_elems rooted (out @ [e]) es)"

fun join_elems :: "string list \<Rightarrow> string" where
  "join_elems [] = []"
| "join_elems [e] = e"
| "join_elems (e # es) = e @ ''/'' @ join_elems es"

definition Clean :: "string \<Rightarrow> string" where
  "Clean path =
     (let rooted = (path \<noteq> [] \<and> hd path = CHR ''/'');
          out = join_elems (clean_elems rooted [] (Split path (CHR ''/'')))
      in if rooted then CHR ''/'' # out
         else if out = [] then ''.''
         else out)"

text \<open>\<^verbatim>\<open>filepath.Join\<close> of two elements: empty elements are ignored, the rest is cleaned.\<close>

definition Join :: "string \<Rightarrow> string \<Rightarrow> string" where
  "Join a b =
     (if a = [] \<and> b = [] then []
      else if a = [] then Clean b
      else Clean (a @ ''/'' @ b))"

text \<open>
  \<^verbatim>\<open>filepath.Base\<close>: the last element of the path, trailing separators removed first; \<open>.\<close>
  for the empty path and \<open>/\<close> for a path of separators only.
\<close>

definition Base :: "string \<Rightarrow> string" where
  "Base path =
     (if path = [] then ''.''
      else
        let stripped = rev (dropWhile (\<lambda>c. c = CHR ''/'') (rev path));
            last_elem = rev (takeWhile (\<lambda>c. c \<noteq> CHR ''/'') (rev stripped))
        in if last_elem = [] then ''/'' else last_elem)"

text \<open>\<^verbatim>\<open>filepath.ToSlash\<close>: the separator is already \<open>/\<close>.\<close>

definition ToSlash :: "string \<Rightarrow> string" where
  "ToSlash path = path"

subsection \<open>\<^verbatim>\<open>float64\<close> arithmetic on integers\<close>

text \<open>
  The values met in \<^verbatim>\<open>int(float64(v) * 1.2)\<close> are far from the subnormal and the overflow
  range of \<^verbatim>\<open>float64\<close>, so a value is determined by rounding to 53 significant bits, to
  nearest and ties to even. \<open>float64(v)\<close> is an integer; the product with the constant
  is kept as its numerator over \<open>2^52\<close>.
\<close>

function bit_length :: "int \<Rightarrow> nat" where
  "bit_length n = (if n \<le> 0 then 0 else Suc (bit_length (n div 2)))"
  by pat_completeness auto
termination
  by (relation "measure nat") auto

text \<open>Round a non-negative integer to a multiple of \<open>2^k\<close>, to nearest, ties to even.\<close>

definition round_half_even :: "int \<Rightarrow> nat \<Rightarrow> int" where
  "round_half_even n k =
     (let q = n div 2 ^ k; r = n mod 2 ^ k
      in if 2 * r > 2 ^ k \<or> (2 * r = 2 ^ k \<and> odd q) then (q + 1) * 2 ^ k else q * 2 ^ k)"

definition round53 :: "int \<Rightarrow> int" where
  "round53 n = round_half_even n (bit_length n - 53)"

text \<open>The value of \<^verbatim>\<open>float64(v)\<close> for an \<^verbatim>\<open>int\<close> \<open>v\<close>.\<close>

definition float64_of_int :: "int \<Rightarrow> int" where
  "float64_of_int v = sgn v * round53 \<bar>v\<bar>"

text \<open>
  The constant \<^verbatim>\<open>1.2\<close> as a \<^verbatim>\<open>float64\<close> is \<open>5404319552844595 / 2^52\<close>
  (\<^verbatim>\<open>0x3FF3333333333333\<close>), a little less than \<open>6/5\<close>.
\<close>

definition float64_1_2_numerator :: int where
  "float64_1_2_numerator = 5404319552844595"

text \<open>The numerator over \<open>2^52\<close> of the \<^verbatim>\<open>float64\<close> product \<open>f * 1.2\<close>, for an integer-valued \<open>f\<close>.\<close>

definition float64_mul_1_2 :: "int \<Rightarrow> int" where
  "float64_mul_1_2 f = sgn f * round53 (\<bar>f\<bar> * float64_1_2_numerator)"

text \<open>
  \<^verbatim>\<open>int(x)\<close> for the \<^verbatim>\<open>float64\<close> \<open>x = n / 2^52\<close>: the fraction is discarded (truncation
  towards zero). Outside the range of \<^verbatim>\<open>int\<close> Go leaves the result to the
  implementation: \<open>None\<close>.
\<close>

definition int_of_float64 :: "int \<Rightarrow> int option" where
  "int_of_float64 n =
     (let t = sgn n * (\<bar>n\<bar> div 2 ^ 52) in if in_int64 t then Some t else None)"

section \<open>Package \<^verbatim>\<open>types\<close>\<close>

record VideoProcessingConfig =
  Outputs :: "string list"
  Resolutions :: "string list"
  Bitrates :: "string list"
  AudioRates :: "string list"
  Levels :: "string list"
  Preset :: string
  CRF :: int
  SegmentTime :: int

section \<open>Package \<^verbatim>\<open>ffmpeg\<close>\<close>

text \<open>The logger and the S3 client handle of \<^verbatim>\<open>VideoProcessor\<close> carry no data of the model.\<close>

record VideoProcessor =
  InputFile :: string
  OutputDir :: string
  S3Bucket :: string
  Config :: VideoProcessingConfig

definition NewVideoProcessor :: VideoProcessor where
  "NewVideoProcessor =
     \<lparr>InputFile = [], OutputDir = [], S3Bucket = [],
      Config = \<lparr>Outputs = [''1080'', ''720''],
                Resolutions = [''1920x1080'', ''1280x720''],
                Bitrates = [''16000k'', ''6000k''],
                AudioRates = [''128k'', ''96k''],
                Levels = [''4.2'', ''3.1''],
                Preset = ''slow'',
                CRF = 12,
                SegmentTime = 4\<rparr>\<rparr>"

subsection \<open>The parameters \<^verbatim>\<open>ProcessVideo\<close> derives\<close>

text \<open>\<^verbatim>\<open>int(float64(bitrateValue)*1.2)\<close>\<close>

definition maxrateKbps :: "int \<Rightarrow> int option" where
  "maxrateKbps bitrateValue = int_of_float64 (float64_mul_1_2 (float64_of_int bitrateValue))"

text \<open>\<^verbatim>\<open>bitrateValue*2\<close>\<close>

definition bufsizeKbps :: "int \<Rightarrow> int" where
  "bufsizeKbps bitrateValue = go_mul bitrateValue 2"

text \<open>\<^verbatim>\<open>gopSize := frameRate * vp.Config.SegmentTime\<close>\<close>

definition gopSize :: "int \<Rightarrow> int \<Rightarrow> int" where
  "gopSize frameRate segmentTime = go_mul frameRate segmentTime"

text \<open>The rounding of the specification: the least integer not below \<open>v * 1.2\<close>.\<close>

definition ceil_times_1_2 :: "int \<Rightarrow> int" where
  "ceil_times_1_2 v = \<lceil>of_int v * (6 / 5 :: rat)\<rceil>"

subsection \<open>The encoder invocation of one rendition\<close>

text \<open>
  Where the model stops following the program: a slice index out of range panics, and
  a \<^verbatim>\<open>float64\<close> outside the range of \<^verbatim>\<open>int\<close> converts to a value Go leaves to the
  implementation.
\<close>

datatype go_abort = IndexOutOfRange | FloatToIntOutOfRange

definition newline :: string where
  "newline = [CHR 0x0A]"

text \<open>
  The body of the loop of \<^verbatim>\<open>ProcessVideo\<close> up to the acquisition of the semaphore: the
  four indexed reads, the derived parameters and the argument vector handed to
  \<^verbatim>\<open>exec.Command\<close> in the goroutine.
\<close>

definition rendition_command :: "VideoProcessor \<Rightarrow> int \<Rightarrow> nat \<Rightarrow> go_abort + string list" where
  "rendition_command vp gop i =
     (let cfg = Config vp in
      if \<not> (i < length (Outputs cfg) \<and> i < length (Bitrates cfg) \<and>
              i < length (AudioRates cfg) \<and> i < length (Levels cfg))
      then Inl IndexOutOfRange
      else
        let resolution = Resolutions cfg ! i;
            outputName = Outputs cfg ! i;
            bitrate = Bitrates cfg ! i;
            audioRate = AudioRates cfg ! i;
            level = Levels cfg ! i;
            bitrateValue = ParseBitrate bitrate
        in case maxrateKbps bitrateValue of
             None \<Rightarrow> Inl FloatToIntOutOfRange
           | Some m \<Rightarrow>
               let maxrate = Itoa m @ ''k'';
                   bufsize = Itoa (bufsizeKbps bitrateValue) @ ''k'';
                   playlist = Join (OutputDir vp) (outputName @ ''.m3u8'')
               in Inr [''ffmpeg'', ''-y'', ''-i'', InputFile vp,
                       ''-c:v'', ''libx264'', ''-preset'', Preset cfg, ''-crf'', ''12'',
                       ''-profile:v'', ''high'', ''-level:v'', level,
                       ''-s'', resolution, ''-b:v'', bitrate,
                       ''-maxrate'', maxrate, ''-bufsize'', bufsize,
                       ''-c:a'', ''aac'', ''-b:a'', audioRate, ''-ac'', ''2'',
                       ''-g'', Itoa gop, ''-keyint_min'', Itoa gop, ''-sc_threshold'', ''0'',
                       ''-hls_time'', ''4'', ''-hls_list_size'', ''0'',
                       ''-hls_flags'', ''independent_segments'',
                       ''-hls_segment_filename'',
                       Join (OutputDir vp) (outputName @ ''_%03d.ts''),
                       playlist])"

subsection \<open>\<^verbatim>\<open>GenerateMasterPlaylist\<close>\<close>

text \<open>
  The loop over \<^verbatim>\<open>vp.Config.Outputs\<close> that fills the buffer; \<open>i\<close> is the index of the
  first of the remaining outputs.
\<close>

fun playlist_loop :: "VideoProcessingConfig \<Rightarrow> nat \<Rightarrow> string list \<Rightarrow> string \<Rightarrow> go_abort + string" where
  "playlist_loop cfg i [] buffer = Inr buffer"
| "playlist_loop cfg i (playlist # rest) buffer =
     (if \<not> (i < length (Resolutions cfg) \<and> i < length (Bitrates cfg))
      then Inl IndexOutOfRange
      else
        let resolution = Resolutions cfg ! i;
            bitrate = Bitrates cfg ! i;
            bandwidth = go_mul (go_add (ParseBitrate bitrate) 128) 1000;
            buffer1 = buffer @ ''#EXT-X-STREAM-INF:BANDWIDTH='' @ Itoa bandwidth @
                        '',RESOLUTION='' @ resolution @ newline;
            buffer2 = buffer1 @ Base playlist @ ''.m3u8'' @ newline
        in playlist_loop cfg (Suc i) rest buffer2)"

text \<open>The bytes \<^verbatim>\<open>GenerateMasterPlaylist\<close> hands to \<^verbatim>\<open>os.WriteFile\<close>.\<close>

definition master_playlist_buffer :: "VideoProcessingConfig \<Rightarrow> go_abort + string" where
  "master_playlist_buffer cfg =
     playlist_loop cfg 0 (Outputs cfg)
       (''#EXTM3U'' @ newline @ ''#EXT-X-VERSION:3'' @ newline)"

text \<open>The file it writes to.\<close>

definition master_playlist_path :: "VideoProcessor \<Rightarrow> string" where
  "master_playlist_path vp = Join (OutputDir vp) ''playlist.m3u8''"

text \<open>
  One entry of the master manifest as the specification words it: the stream header
  with bandwidth and resolution, then the name of the rendition's playlist.
\<close>

definition manifest_entry :: "int \<Rightarrow> string \<Rightarrow> string \<Rightarrow> string" where
  "manifest_entry bandwidth resolution playlist_name =
     ''#EXT-X-STREAM-INF:BANDWIDTH='' @ Itoa bandwidth @ '',RESOLUTION='' @ resolution @
     newline @ playlist_name @ newline"

text \<open>The advertised bandwidth of the specification, in bits per second.\<close>

definition bandwidthBps :: "int \<Rightarrow> int" where
  "bandwidthBps videoBitrateKbps = (videoBitrateKbps + 128) * 1000"

text \<open>A plain file name: not empty and without a separator.\<close>

definition plain_name :: "string \<Rightarrow> bool" where
  "plain_name n = (n \<noteq> [] \<and> CHR ''/'' \<notin> set n)"

subsection \<open>\<^verbatim>\<open>ProcessVideo\<close>: the bounded pool of encoder goroutines\<close>

text \<open>
  What \<^verbatim>\<open>ProcessVideo\<close> takes from outside: the processor, \<^verbatim>\<open>runtime.NumCPU()\<close>, the
  standard output of the \<^verbatim>\<open>ffprobe\<close> command (\<open>None\<close> when the command fails), whether
  \<^verbatim>\<open>ffmpegCmd.Run()\<close> succeeds for the rendition of each index, and whether
  \<^verbatim>\<open>os.WriteFile\<close> of the master playlist succeeds.
\<close>

record job =
  processor :: VideoProcessor
  numCPUs :: nat
  frameRateOutput :: "string option"
  encoder_ok :: "nat \<Rightarrow> bool"
  write_ok :: bool

text \<open>The errors \<^verbatim>\<open>ProcessVideo\<close> returns; an encoder error carries the resolution.\<close>

datatype pv_error = FrameRateError | ProcessingError string | MasterPlaylistError

text \<open>
  A goroutine of the loop: created; inside \<^verbatim>\<open>ffmpegCmd.Run()\<close>; past it (its error, if
  any, sent to \<^verbatim>\<open>errChan\<close>); past the deferred function (token taken back from \<^verbatim>\<open>sem\<close>,
  \<^verbatim>\<open>wg.Done()\<close>).
\<close>

datatype task_status = Spawned | Running | Exited | Released

text \<open>
  The main goroutine: at the head of the loop with index \<open>i\<close> (or, with \<open>i\<close> the number of
  resolutions, at \<^verbatim>\<open>wg.Wait()\<close>); returned; or stopped by a panic.
\<close>

datatype main_pc = Looping nat | Returned "pv_error option" | Aborted go_abort

text \<open>
  \<open>sem\<close> and \<open>errChan\<close> are the contents of the two buffered channels, \<open>wg\<close> the counter
  of the wait group, \<open>tasks\<close> and \<open>commands\<close> the goroutines and their encoder
  invocations by rendition index. \<open>exit_order\<close> records the order in which the encoder
  invocations ended, and \<open>playlist_written\<close> what \<^verbatim>\<open>GenerateMasterPlaylist\<close> wrote.
\<close>

record pool =
  main :: main_pc
  gop :: int
  sem :: nat
  wg :: nat
  tasks :: "task_status list"
  commands :: "string list list"
  errChan :: "string list"
  exit_order :: "nat list"
  playlist_written :: "string option"

text \<open>
  The steps of the goroutines. \<open>Spawn\<close> is one turn of the loop of the main goroutine
  (parameters, \<^verbatim>\<open>sem <- struct{}{}\<close>, \<^verbatim>\<open>wg.Add(1)\<close>, \<^verbatim>\<open>go\<close>); \<open>Start\<close>, \<open>Exit\<close> and
  \<open>Release\<close> move the goroutine of a rendition; \<open>WaitReturn\<close> is the main goroutine from
  \<^verbatim>\<open>wg.Wait()\<close> to its return.
\<close>

datatype action = Spawn | Start nat | Exit nat | Release nat | WaitReturn

text \<open>The state after the \<^verbatim>\<open>ffprobe\<close> command: its failure returns at once.\<close>

definition ProcessVideo_start :: "job \<Rightarrow> pool" where
  "ProcessVideo_start job =
     (case frameRateOutput job of
        None \<Rightarrow>
          \<lparr>main = Returned (Some FrameRateError), gop = 0, sem = 0, wg = 0, tasks = [],
           commands = [], errChan = [], exit_order = [], playlist_written = None\<rparr>
      | Some out \<Rightarrow>
          \<lparr>main = Looping 0,
           gop = gopSize (ParseFrameRate out) (SegmentTime (Config (processor job))),
           sem = 0, wg = 0, tasks = [], commands = [], errChan = [], exit_order = [],
           playlist_written = None\<rparr>)"

definition is_looping :: "pool \<Rightarrow> bool" where
  "is_looping s = (case main s of Looping i \<Rightarrow> True | _ \<Rightarrow> False)"

text \<open>
  One step; \<open>None\<close> when the step cannot be taken in this state (a send to a full
  channel and \<^verbatim>\<open>wg.Wait()\<close> on a positive counter block). No step exists that cancels a
  goroutine or an encoder: the program has none.
\<close>

fun step :: "job \<Rightarrow> action \<Rightarrow> pool \<Rightarrow> pool option" where
  "step job Spawn s =
     (case main s of
        Looping i \<Rightarrow>
          if i < length (Resolutions (Config (processor job))) then
            (case rendition_command (processor job) (gop s) i of
               Inl a \<Rightarrow> Some (s\<lparr>main := Aborted a\<rparr>)
             | Inr cmd \<Rightarrow>
                 if sem s < numCPUs job then
                   Some (s\<lparr>main := Looping (Suc i), sem := Suc (sem s), wg := Suc (wg s),
                           tasks := tasks s @ [Spawned], commands := commands s @ [cmd]\<rparr>)
                 else None)
          else None
      | _ \<Rightarrow> None)"
| "step job (Start j) s =
     (if is_looping s \<and> j < length (tasks s) \<and> tasks s ! j = Spawned
      then Some (s\<lparr>tasks := (tasks s)[j := Running]\<rparr>)
      else None)"
| "step job (Exit j) s =
     (if is_looping s \<and> j < length (tasks s) \<and> tasks s ! j = Running then
        if encoder_ok job j then
          Some (s\<lparr>tasks := (tasks s)[j := Exited], exit_order := exit_order s @ [j]\<rparr>)
        else if length (errChan s) < length (Resolutions (Config (processor job))) then
          Some (s\<lparr>tasks := (tasks s)[j := Exited], exit_order := exit_order s @ [j],
                  errChan := errChan s @ [Resolutions (Config (processor job)) ! j]\<rparr>)
        else None
      else None)"
| "step job (Release j) s =
     (if is_looping s \<and> j < length (tasks s) \<and> tasks s ! j = Exited \<and> 0 < sem s
      then Some (s\<lparr>tasks := (tasks s)[j := Released], sem := sem s - 1, wg := wg s - 1\<rparr>)
      else None)"
| "step job WaitReturn s =
     (case main s of
        Looping i \<Rightarrow>
          if i = length (Resolutions (Config (processor job))) \<and> wg s = 0 then
            (case errChan s of
               e # _ \<Rightarrow> Some (s\<lparr>main := Returned (Some (ProcessingError e))\<rparr>)
             | [] \<Rightarrow>
                 (case master_playlist_buffer (Config (processor job)) of
                    Inl a \<Rightarrow> Some (s\<lparr>main := Aborted a\<rparr>)
                  | Inr text \<Rightarrow>
                      if write_ok job
                      then Some (s\<lparr>main := Returned None, playlist_written := Some text\<rparr>)
                      else Some (s\<lparr>main := Returned (Some MasterPlaylistError)\<rparr>)))
          else None
      | _ \<Rightarrow> None)"

text \<open>A run of the program under a schedule: the steps taken one after the other.\<close>

fun exec :: "job \<Rightarrow> action list \<Rightarrow> pool \<Rightarrow> pool option" where
  "exec job [] s = Some s"
| "exec job (a # as) s = (case step job a s of None \<Rightarrow> None | Some s' \<Rightarrow> exec job as s')"

text \<open>The encoder invocations in progress, and the slots given back.\<close>

definition running :: "pool \<Rightarrow> nat" where
  "running s = length (filter (\<lambda>t. t = Running) (tasks s))"

definition released :: "pool \<Rightarrow> nat" where
  "released s = length (filter (\<lambda>t. t = Released) (tasks s))"

definition unreleased :: "pool \<Rightarrow> nat" where
  "unreleased s = length (filter (\<lambda>t. t \<noteq> Released) (tasks s))"

text \<open>The renditions whose encoder fails, in the order in which the encoders ended.\<close>

definition failed_in_exit_order :: "job \<Rightarrow> pool \<Rightarrow> nat list" where
  "failed_in_exit_order job s = filter (\<lambda>j. \<not> encoder_ok job j) (exit_order s)"

text \<open>Two jobs on the ladder of \<^verbatim>\<open>NewVideoProcessor\<close>, used as concrete inputs.\<close>

definition example_processor :: VideoProcessor where
  "example_processor = NewVideoProcessor\<lparr>InputFile := ''input.mp4'', OutputDir := ''./output''\<rparr>"

definition both_fail_job :: job where
  "both_fail_job =
     \<lparr>processor = example_processor, numCPUs = 2,
      frameRateOutput = Some (''30/1'' @ newline), encoder_ok = (\<lambda>j. False),
      write_ok = True\<rparr>"

definition second_fails_job :: job where
  "second_fails_job =
     \<lparr>processor = example_processor, numCPUs = 1,
      frameRateOutput = Some (''30000/1001'' @ newline), encoder_ok = (\<lambda>j. j = 0),
      write_ok = True\<rparr>"

definition malformed_probe_job :: job where
  "malformed_probe_job =
     \<lparr>processor = example_processor, numCPUs = 2,
      frameRateOutput = Some (''x/y'' @ newline), encoder_ok = (\<lambda>j. True),
      write_ok = True\<rparr>"

definition probe_fails_job :: job where
  "probe_fails_job =
     \<lparr>processor = example_processor, numCPUs = 2,
      frameRateOutput = None, encoder_ok = (\<lambda>j. True), write_ok = True\<rparr>"

text \<open>What holds of the pool in every state of every run.\<close>

definition pool_inv :: "job \<Rightarrow> pool \<Rightarrow> bool" where
  "pool_inv job s =
     (length (commands s) = length (tasks s) \<and>
      length (tasks s) \<le> length (Resolutions (Config (processor job))) \<and>
      sem s = unreleased s \<and> wg s = unreleased s \<and> sem s \<le> numCPUs job \<and>
      (\<forall>i. main s = Looping i \<longrightarrow> i = length (tasks s)) \<and>
      distinct (exit_order s) \<and>
      set (exit_order s) =
        {j. j < length (tasks s) \<and> (tasks s ! j = Exited \<or> tasks s ! j = Released)} \<and>
      errChan s =
        map (\<lambda>j. Resolutions (Config (processor job)) ! j) (failed_in_exit_order job s) \<and>
      (playlist_written s \<noteq> None \<longrightarrow> main s = Returned None))"

text \<open>What holds once \<^verbatim>\<open>ProcessVideo\<close> has returned \<open>r\<close> after a successful probe.\<close>

definition returned_inv :: "job \<Rightarrow> pool \<Rightarrow> bool" where
  "returned_inv job s =
     (\<forall>r. main s = Returned r \<and> frameRateOutput job \<noteq> None \<longrightarrow>
        length (tasks s) = length (Resolutions (Config (processor job))) \<and>
        unreleased s = 0 \<and>
        (case errChan s of
           e # _ \<Rightarrow> r = Some (ProcessingError e) \<and> playlist_written s = None
         | [] \<Rightarrow>
             (\<exists>text. master_playlist_buffer (Config (processor job)) = Inr text \<and>
                (if write_ok job then r = None \<and> playlist_written s = Some text
                 else r = Some MasterPlaylistError \<and> playlist_written s = None))))"

text \<open>How far a run has come: every step adds one.\<close>

fun rank :: "task_status \<Rightarrow> nat" where
  "rank Spawned = 1"
| "rank Running = 2"
| "rank Exited = 3"
| "rank Released = 4"

definition progress :: "pool \<Rightarrow> nat" where
  "progress s = sum_list (map rank (tasks s)) + (if is_looping s then 0 else 1)"

section \<open>Verified properties\<close>

lemma value_lsd_first_snoc:
  "value_lsd_first (ys @ [c]) = value_lsd_first ys + 10 ^ length ys * digit_val c"
  by (induction ys) (simp_all add: algebra_simps)

lemma decimal_value_Nil: "decimal_value [] = 0"
  by (simp add: decimal_value_def)

lemma decimal_value_Cons:
  "decimal_value (c # cs) = digit_val c * 10 ^ length cs + decimal_value cs"
  by (simp add: decimal_value_def value_lsd_first_snoc)

lemma digit_val_range: "is_digit c \<Longrightarrow> 0 \<le> digit_val c \<and> digit_val c \<le> 9"
  by (simp add: is_digit_def digit_val_def)

lemma decimal_value_nonneg: "list_all is_digit s \<Longrightarrow> 0 \<le> decimal_value s"
  by (induction s) (simp_all add: decimal_value_Nil decimal_value_Cons digit_val_range)

lemma ParseUint_loop_lead:
  "0 \<le> n \<Longrightarrow> n \<le> maxUint64 \<Longrightarrow>
   ParseUint_loop n s =
     (let lead = takeWhile is_digit s;
          v = n * 10 ^ length lead + decimal_value lead
      in if v > maxUint64 then (maxUint64, Some ErrRange)
         else if lead \<noteq> s then (0, Some ErrSyntax)
         else (v, None))"
proof (induction s arbitrary: n)
  case Nil
  then show ?case by (simp add: decimal_value_Nil)
next
  case (Cons c cs)
  show ?case
  proof (cases "is_digit c")
    case False
    with Cons.prems show ?thesis by (simp add: decimal_value_Nil)
  next
    case True
    let ?lead = "takeWhile is_digit cs"
    let ?d = "digit_val c"
    have d: "0 \<le> ?d" "?d \<le> 9" using True digit_val_range by auto
    have lead_nonneg: "0 \<le> decimal_value ?lead"
      by (rule decimal_value_nonneg) (simp add: list_all_iff, meson set_takeWhileD)
    have pow: "(1::int) \<le> 10 ^ length ?lead" by simp
    have V: "n * 10 ^ length (c # ?lead) + decimal_value (c # ?lead)
             = (n * 10 + ?d) * 10 ^ length ?lead + decimal_value ?lead"
      by (simp add: decimal_value_Cons algebra_simps)
    have ge: "n * 10 + ?d \<le> (n * 10 + ?d) * 10 ^ length ?lead + decimal_value ?lead"
    proof -
      have "0 \<le> n * 10 + ?d" using Cons.prems d by simp
      then have "(n * 10 + ?d) * 1 \<le> (n * 10 + ?d) * 10 ^ length ?lead"
        using pow by (intro mult_left_mono) auto
      with lead_nonneg show ?thesis by simp
    qed
    show ?thesis
    proof (cases "n \<ge> maxUint64 div 10 + 1 \<or> n * 10 + ?d > maxUint64")
      case over: True
      then have "n * 10 + ?d > maxUint64" using d by (auto simp: maxUint64_def)
      with ge have "(n * 10 + ?d) * 10 ^ length ?lead + decimal_value ?lead > maxUint64"
        by linarith
      with True over V show ?thesis by (auto simp: Let_def)
    next
      case ok: False
      then have n': "0 \<le> n * 10 + ?d" "n * 10 + ?d \<le> maxUint64"
        using Cons.prems d by auto
      from ok True have "ParseUint_loop n (c # cs) = ParseUint_loop (n * 10 + ?d) cs"
        by auto
      also note Cons.IH [OF n']
      finally show ?thesis using True V by (simp add: Let_def)
    qed
  qed
qed

lemma ParseUint_lead:
  "ParseUint s =
     (let lead = takeWhile is_digit s
      in if s = [] then (0, Some ErrSyntax)
         else if decimal_value lead > maxUint64 then (maxUint64, Some ErrRange)
         else if lead \<noteq> s then (0, Some ErrSyntax)
         else (decimal_value lead, None))"
  using ParseUint_loop_lead [of 0 s]
  by (simp add: ParseUint_def Let_def maxUint64_def)

lemma Atoi_read_int: "fst (Atoi s) = read_int s"
proof (cases s)
  case Nil
  then show ?thesis by (simp add: Atoi_def ParseInt_def read_int_def)
next
  case (Cons c cs)
  define body where "body = (if c = CHR ''+'' \<or> c = CHR ''-'' then cs else s)"
  define lead where "lead = takeWhile is_digit body"
  have lead_nonneg: "0 \<le> decimal_value lead"
    unfolding lead_def
    by (rule decimal_value_nonneg) (simp add: list_all_iff, meson set_takeWhileD)
  show ?thesis
    using lead_nonneg Cons
    unfolding Atoi_def ParseInt_def read_int_def ParseUint_lead body_def lead_def
    by (auto simp: Let_def clamp_int64_def maxUint64_def maxInt64_def minInt64_def)
qed

declare TrimLeftSpace.simps [simp del] TrimRightSpace.simps [simp del]

lemma Split_not_Nil: "Split s c \<noteq> []"
  by (induction s) auto

lemma length_Split: "length (Split s c) = count_list s c + 1"
proof (induction s)
  case Nil
  then show ?case by simp
next
  case (Cons x xs)
  then show ?case
    using Split_not_Nil [of xs c] by (cases "Split xs c") auto
qed

lemma Split_no_sep: "c \<notin> set s \<Longrightarrow> Split s c = [s]"
  by (induction s) auto

lemma Split_first: "c \<notin> set a \<Longrightarrow> Split (a @ c # b) c = a # Split b c"
  by (induction a) auto

lemma Split_two: "c \<notin> set a \<Longrightarrow> c \<notin> set b \<Longrightarrow> Split (a @ c # b) c = [a, b]"
  by (simp add: Split_first Split_no_sep)

lemma takeWhile_digits: "list_all is_digit s \<Longrightarrow> takeWhile is_digit s = s"
  by (induction s) auto

lemma not_digit_sign: "\<not> is_digit CHR ''+''" "\<not> is_digit CHR ''-''" "\<not> is_digit CHR ''/''"
  by (simp_all add: is_digit_def)

lemma clamp_in_int64: "in_int64 (clamp_int64 v)"
  by (simp add: clamp_int64_def in_int64_def minInt64_def maxInt64_def)

lemma in_int64_0: "in_int64 0"
  by (simp add: in_int64_def minInt64_def maxInt64_def)

lemma read_int_in_int64: "in_int64 (read_int s)"
  by (simp add: read_int_def Let_def clamp_in_int64 in_int64_0)

lemma int64_wrap_id: "in_int64 x \<Longrightarrow> int64_wrap x = x"
  by (simp add: in_int64_def int64_wrap_def minInt64_def maxInt64_def)

lemma trunc_quo_1: "trunc_quo N 1 = N"
  by (simp add: trunc_quo_def mult_sgn_abs)

lemma trunc_quo_nonneg: "0 \<le> N \<Longrightarrow> 0 < D \<Longrightarrow> trunc_quo N D = N div D"
  by (cases "N = 0") (simp_all add: trunc_quo_def)

lemma ParseFrameRate_two_parts:
  assumes "TrimSpace s = a @ CHR ''/'' # b" "CHR ''/'' \<notin> set a" "CHR ''/'' \<notin> set b"
  shows "ParseFrameRate s = frame_quotient (read_int a) (read_int b)"
proof -
  have "Split (TrimSpace s) (CHR ''/'') = [a, b]"
    using assms by (simp add: Split_two)
  then show ?thesis
    by (simp add: ParseFrameRate_def Let_def Atoi_read_int frame_quotient_def go_quo_def
        trunc_quo_1 int64_wrap_id read_int_in_int64)
qed

lemma ParseFrameRate_other_parts:
  assumes "count_list (TrimSpace s) (CHR ''/'') \<noteq> 1"
  shows "ParseFrameRate s = 30"
  using assms by (simp add: ParseFrameRate_def Let_def length_Split)

lemma read_int_digits:
  assumes "digit_string ds"
  shows "read_int ds = clamp_int64 (decimal_value ds)"
    and "read_int (CHR ''+'' # ds) = clamp_int64 (decimal_value ds)"
    and "read_int (CHR ''-'' # ds) = clamp_int64 (- decimal_value ds)"
proof -
  from assms obtain c cs where ds: "ds = c # cs" and c: "is_digit c" and all: "list_all is_digit ds"
    by (cases ds) (auto simp: digit_string_def)
  have tw: "takeWhile is_digit ds = ds"
    using all by (rule takeWhile_digits)
  have nonneg: "0 \<le> decimal_value ds"
    using all by (rule decimal_value_nonneg)
  have sign: "c \<noteq> CHR ''+''" "c \<noteq> CHR ''-''"
    using c not_digit_sign by auto
  have big: "decimal_value ds > maxUint64 \<Longrightarrow> clamp_int64 (decimal_value ds) = clamp_int64 (decimal_value ds)"
    by simp
  show "read_int ds = clamp_int64 (decimal_value ds)"
    using sign tw by (simp add: read_int_def Let_def ds)
  show "read_int (CHR ''+'' # ds) = clamp_int64 (decimal_value ds)"
    using tw by (simp add: read_int_def Let_def ds)
  show "read_int (CHR ''-'' # ds) = clamp_int64 (- decimal_value ds)"
    using tw by (simp add: read_int_def Let_def ds)
qed

lemma clamp_id: "in_int64 n \<Longrightarrow> clamp_int64 n = n"
  by (simp add: clamp_int64_def in_int64_def)

lemma int_literal_cases:
  assumes "int_literal s = Some n"
  obtains (digits) "digit_string s" "n = decimal_value s"
  | (plus) ds where "s = CHR ''+'' # ds" "digit_string ds" "n = decimal_value ds"
  | (minus) ds where "s = CHR ''-'' # ds" "digit_string ds" "n = - decimal_value ds"
  using assms by (cases s) (auto simp: int_literal_def split: if_splits)

lemma read_int_literal:
  assumes "int_literal s = Some n"
  shows "read_int s = clamp_int64 n"
  using assms by (cases rule: int_literal_cases) (simp_all add: read_int_digits)

lemma read_int_parses:
  assumes "parses_as s n"
  shows "read_int s = n"
  using assms by (simp add: parses_as_def read_int_literal clamp_id)

lemma digit_string_no_slash: "digit_string ds \<Longrightarrow> CHR ''/'' \<notin> set ds"
  using not_digit_sign(3) by (auto simp: digit_string_def list_all_iff)

lemma int_literal_no_slash:
  assumes "int_literal s = Some n"
  shows "CHR ''/'' \<notin> set s"
  using assms by (cases rule: int_literal_cases) (auto dest: digit_string_no_slash)

lemma clamp_out: "\<not> in_int64 v \<Longrightarrow> clamp_int64 v = maxInt64 \<or> clamp_int64 v = minInt64"
  by (auto simp: clamp_int64_def in_int64_def minInt64_def maxInt64_def)

lemma takeWhile_all_digit_string:
  assumes "takeWhile is_digit body = body" "body \<noteq> []"
  shows "digit_string body"
  unfolding digit_string_def
  using assms by (metis list_all_iff set_takeWhileD)

lemma read_int_fails:
  assumes "\<not> parses s"
  shows "read_int s = 0 \<or> read_int s = maxInt64 \<or> read_int s = minInt64"
proof (cases "\<exists>n. int_literal s = Some n")
  case True
  then obtain n where n: "int_literal s = Some n" by blast
  with assms have "\<not> in_int64 n" by (simp add: parses_def)
  then show ?thesis
    using clamp_out [of n] read_int_literal [OF n] by auto
next
  case False
  define neg where "neg = (s \<noteq> [] \<and> hd s = CHR ''-'')"
  define body where "body = (if s \<noteq> [] \<and> (hd s = CHR ''+'' \<or> hd s = CHR ''-'') then tl s else s)"
  define lead where "lead = takeWhile is_digit body"
  define v where "v = (if neg then - decimal_value lead else decimal_value lead)"
  have r: "read_int s = (if body = [] then 0
         else if decimal_value lead > maxUint64 then clamp_int64 v
         else if lead \<noteq> body then 0
         else clamp_int64 v)"
    by (simp add: read_int_def Let_def neg_def body_def lead_def v_def)
  have nonneg: "0 \<le> decimal_value lead"
    unfolding lead_def
    by (rule decimal_value_nonneg) (simp add: list_all_iff, meson set_takeWhileD)
  have not_all: "body \<noteq> [] \<Longrightarrow> lead \<noteq> body"
  proof
    assume b: "body \<noteq> []" and "lead = body"
    then have ds: "digit_string body"
      using takeWhile_all_digit_string lead_def by auto
    have "\<exists>n. int_literal s = Some n"
    proof (cases s)
      case Nil
      with b show ?thesis by (simp add: body_def)
    next
      case (Cons c cs)
      with ds show ?thesis
        by (auto simp: int_literal_def body_def split: if_splits)
    qed
    with False show False by blast
  qed
  have big: "decimal_value lead > maxUint64 \<Longrightarrow> \<not> in_int64 v"
    using nonneg by (auto simp: v_def in_int64_def maxUint64_def maxInt64_def minInt64_def)
  show ?thesis
    using r not_all big clamp_out [of v] by auto
qed

lemma HasSuffix_k: "HasSuffix (p @ ''k'') ''k''"
  by (simp add: HasSuffix_def)

lemma TrimSuffix_k: "TrimSuffix (p @ ''k'') ''k'' = p"
  by (simp add: TrimSuffix_def HasSuffix_def)

lemma ParseBitrate_suffix: "ParseBitrate (p @ ''k'') = read_int p"
  by (simp add: ParseBitrate_def HasSuffix_k TrimSuffix_k Atoi_read_int)

text \<open>
  Claim C3, as the code has it. With surrounding white space trimmed: a frame-rate string
  that does not split on \<open>/\<close> into exactly two parts gives 30. One that does gives the
  quotient of what is read for the two parts: \<open>N\<close> truncated-divided by \<open>D\<close> when both
  parts parse as integers \<open>N\<close> and \<open>D \<noteq> 0\<close> (which is \<open>N div D\<close> for \<open>N \<ge> 0\<close>, \<open>D > 0\<close>),
  \<open>N\<close> when \<open>D = 0\<close>. A part that fails to parse is not replaced by the default 30: it
  is read as \<open>read_int\<close> says (0, or the nearest bound of \<^verbatim>\<open>int\<close>), and the quotient is
  formed in the same way.
\<close>

theorem ParseFrameRate_amended:
  "(count_list (TrimSpace s) (CHR ''/'') \<noteq> 1 \<longrightarrow> ParseFrameRate s = 30) \<and>
   (TrimSpace s = a @ CHR ''/'' # b \<and> CHR ''/'' \<notin> set a \<and> CHR ''/'' \<notin> set b \<longrightarrow>
      ParseFrameRate s = frame_quotient (read_int a) (read_int b)) \<and>
   (TrimSpace s = a @ CHR ''/'' # b \<and> parses_as a N \<and> parses_as b D \<longrightarrow>
      ParseFrameRate s = (if D = 0 then N else int64_wrap (trunc_quo N D))) \<and>
   (TrimSpace s = a @ CHR ''/'' # b \<and> parses_as a N \<and> parses_as b D \<and> 0 \<le> N \<and> 0 < D \<longrightarrow>
      ParseFrameRate s = N div D)"
proof (intro conjI impI)
  assume "count_list (TrimSpace s) (CHR ''/'') \<noteq> 1"
  then show "ParseFrameRate s = 30" by (rule ParseFrameRate_other_parts)
next
  assume "TrimSpace s = a @ CHR ''/'' # b \<and> CHR ''/'' \<notin> set a \<and> CHR ''/'' \<notin> set b"
  then show "ParseFrameRate s = frame_quotient (read_int a) (read_int b)"
    by (simp add: ParseFrameRate_two_parts)
next
  assume h: "TrimSpace s = a @ CHR ''/'' # b \<and> parses_as a N \<and> parses_as b D"
  then have "CHR ''/'' \<notin> set a" "CHR ''/'' \<notin> set b"
    by (auto simp: parses_as_def dest: int_literal_no_slash)
  with h have "ParseFrameRate s = frame_quotient (read_int a) (read_int b)"
    by (simp add: ParseFrameRate_two_parts)
  moreover from h have "read_int a = N" "read_int b = D"
    by (simp_all add: read_int_parses)
  ultimately show "ParseFrameRate s = (if D = 0 then N else int64_wrap (trunc_quo N D))"
    by (simp add: frame_quotient_def)
next
  assume h: "TrimSpace s = a @ CHR ''/'' # b \<and> parses_as a N \<and> parses_as b D \<and> 0 \<le> N \<and> 0 < D"
  then have "CHR ''/'' \<notin> set a" "CHR ''/'' \<notin> set b"
    by (auto simp: parses_as_def dest: int_literal_no_slash)
  with h have "ParseFrameRate s = frame_quotient (read_int a) (read_int b)"
    by (simp add: ParseFrameRate_two_parts)
  moreover from h have "read_int a = N" "read_int b = D"
    by (simp_all add: read_int_parses)
  ultimately have 1: "ParseFrameRate s = int64_wrap (N div D)"
    using h by (simp add: frame_quotient_def trunc_quo_nonneg)
  from h have "0 \<le> N div D"
    by (simp add: pos_imp_zdiv_nonneg_iff)
  moreover from h have "N div D \<le> N div 1"
    by (intro zdiv_mono2) auto
  then have "N div D \<le> N" by simp
  moreover from h have "in_int64 N" by (simp add: parses_as_def)
  ultimately have "in_int64 (N div D)"
    by (simp add: in_int64_def minInt64_def)
  with 1 show "ParseFrameRate s = N div D"
    by (simp add: int64_wrap_id)
qed

theorem ParseFrameRate_amended_witness:
  "TrimSpace (''30000/1001'' @ [CHR 0x0A]) = ''30000'' @ CHR ''/'' # ''1001'' \<and>
   parses_as ''30000'' 30000 \<and> parses_as ''1001'' 1001 \<and>
   ParseFrameRate (''30000/1001'' @ [CHR 0x0A]) = 30000 div 1001 \<and>
   count_list (TrimSpace ''abc'') (CHR ''/'') \<noteq> 1 \<and> ParseFrameRate ''abc'' = 30 \<and>
   TrimSpace ''x/7'' = ''x'' @ CHR ''/'' # ''7'' \<and>
   ParseFrameRate ''x/7'' = frame_quotient (read_int ''x'') (read_int ''7'')"
proof -
  have 1: "TrimSpace (''30000/1001'' @ [CHR 0x0A]) = ''30000'' @ CHR ''/'' # ''1001''"
    by code_simp
  have 2: "parses_as ''30000'' 30000" "parses_as ''1001'' 1001"
    by code_simp+
  have 3: "count_list (TrimSpace ''abc'') (CHR ''/'') \<noteq> 1"
    by code_simp
  have 4: "TrimSpace ''x/7'' = ''x'' @ CHR ''/'' # ''7''"
    by code_simp
  have 5: "CHR ''/'' \<notin> set ''x''" "CHR ''/'' \<notin> set ''7''"
    by simp_all
  show ?thesis
    using 1 2 3 4 5
      ParseFrameRate_amended [of "''30000/1001'' @ [CHR 0x0A]" "''30000''" "''1001''" 30000 1001]
      ParseFrameRate_amended [of "''abc''" "[]" "[]" 0 0]
      ParseFrameRate_amended [of "''x/7''" "''x''" "''7''" 0 0]
    by simp
qed

text \<open>
  Claim C3 as stated fails: in \<open>a/b\<close> neither part parses as an integer, and the result is
  0, not the default 30.
\<close>

theorem ParseFrameRate_default_counterexample:
  "Split ''a/b'' (CHR ''/'') = [''a'', ''b''] \<and> \<not> parses ''a'' \<and> \<not> parses ''b'' \<and>
   ParseFrameRate ''a/b'' = 0"
  by code_simp

text \<open>
  Claim C4, as the code has it. A bitrate string without the suffix \<open>k\<close> gives 1000. One
  with the suffix gives what is read for the prefix: the integer, when the prefix parses
  as one (in particular the value of \<open><digits>\<close> up to \<open>2^63 - 1\<close>); when the prefix
  fails to parse, not the default 1000 but 0 or the nearest bound of \<^verbatim>\<open>int\<close>.
\<close>

theorem ParseBitrate_amended:
  "(\<not> HasSuffix s ''k'' \<longrightarrow> ParseBitrate s = 1000) \<and>
   ParseBitrate (p @ ''k'') = read_int p \<and>
   (digit_string p \<and> decimal_value p \<le> maxInt64 \<longrightarrow>
      ParseBitrate (p @ ''k'') = decimal_value p) \<and>
   (parses_as p n \<longrightarrow> ParseBitrate (p @ ''k'') = n) \<and>
   (\<not> parses p \<longrightarrow> ParseBitrate (p @ ''k'') \<in> {0, maxInt64, minInt64})"
proof (intro conjI impI)
  assume "\<not> HasSuffix s ''k''"
  then show "ParseBitrate s = 1000" by (simp add: ParseBitrate_def)
next
  show "ParseBitrate (p @ ''k'') = read_int p" by (rule ParseBitrate_suffix)
next
  assume h: "digit_string p \<and> decimal_value p \<le> maxInt64"
  then have "0 \<le> decimal_value p"
    by (simp add: digit_string_def decimal_value_nonneg)
  with h have "in_int64 (decimal_value p)"
    by (simp add: in_int64_def minInt64_def)
  with h show "ParseBitrate (p @ ''k'') = decimal_value p"
    by (simp add: ParseBitrate_suffix read_int_digits(1) clamp_id)
next
  assume "parses_as p n"
  then show "ParseBitrate (p @ ''k'') = n"
    by (simp add: ParseBitrate_suffix read_int_parses)
next
  assume "\<not> parses p"
  then show "ParseBitrate (p @ ''k'') \<in> {0, maxInt64, minInt64}"
    using read_int_fails [of p] by (auto simp: ParseBitrate_suffix)
qed

theorem ParseBitrate_amended_witness:
  "\<not> HasSuffix ''6000'' ''k'' \<and> ParseBitrate ''6000'' = 1000 \<and>
   digit_string ''6000'' \<and> decimal_value ''6000'' \<le> maxInt64 \<and>
   ParseBitrate (''6000'' @ ''k'') = decimal_value ''6000'' \<and>
   parses_as ''16000'' 16000 \<and> ParseBitrate (''16000'' @ ''k'') = 16000 \<and>
   \<not> parses ''6000kbps'' \<and> ParseBitrate (''6000kbps'' @ ''k'') \<in> {0, maxInt64, minInt64}"
proof -
  have 1: "\<not> HasSuffix ''6000'' ''k''"
    by code_simp
  have 2: "digit_string ''6000'' \<and> decimal_value ''6000'' \<le> maxInt64"
    by code_simp
  have 3: "parses_as ''16000'' 16000"
    by code_simp
  have 4: "\<not> parses ''6000kbps''"
    by code_simp
  show ?thesis
    using 1 2 3 4
      ParseBitrate_amended [of "''6000''" "''6000''" 0]
      ParseBitrate_amended [of "''6000''" "''16000''" 16000]
      ParseBitrate_amended [of "''6000''" "''6000kbps''" 0]
    by blast
qed

text \<open>
  Claim C4 as stated fails: \<open>abck\<close> has the suffix, its prefix fails to parse as an
  integer, and the result is 0, not the default 1000.
\<close>

theorem ParseBitrate_default_counterexample:
  "HasSuffix ''abck'' ''k'' \<and> \<not> parses (TrimSuffix ''abck'' ''k'') \<and>
   ParseBitrate ''abck'' = 0"
  by code_simp

declare bit_length.simps [simp del]
declare show_nonneg.simps [simp del]

lemma bit_length_bounds:
  "0 < n \<Longrightarrow> 2 ^ (bit_length n - 1) \<le> n \<and> n < 2 ^ bit_length n"
proof (induction n rule: bit_length.induct)
  case (1 n)
  show ?case
  proof (cases "n div 2 \<le> 0")
    case True
    with "1.prems" have "n = 1" by linarith
    then show ?thesis
      by (simp add: bit_length.simps [of 1] bit_length.simps [of 0])
  next
    case False
    then have pos: "0 < n div 2" by simp
    from "1.prems" have "\<not> n \<le> 0" by simp
    from "1.IH" [OF this pos]
    have ih: "2 ^ (bit_length (n div 2) - 1) \<le> n div 2" "n div 2 < 2 ^ bit_length (n div 2)"
      by simp_all
    have bl: "bit_length n = Suc (bit_length (n div 2))"
      using "1.prems" by (simp add: bit_length.simps [of n])
    have blpos: "0 < bit_length (n div 2)"
      using pos by (simp add: bit_length.simps [of "n div 2"])
    then have "(2::int) ^ bit_length (n div 2) = 2 * 2 ^ (bit_length (n div 2) - 1)"
      by (cases "bit_length (n div 2)") simp_all
    with ih have "2 ^ bit_length (n div 2) \<le> n" by linarith
    moreover from ih have "n < 2 * 2 ^ bit_length (n div 2)" by linarith
    ultimately show ?thesis by (simp add: bl)
  qed
qed

lemma bit_length_le:
  assumes "0 \<le> n" "n < 2 ^ k"
  shows "bit_length n \<le> k"
proof (cases "n = 0")
  case True
  then show ?thesis by (simp add: bit_length.simps [of 0])
next
  case False
  with assms have "0 < n" by simp
  from bit_length_bounds [OF this] assms have "(2::int) ^ (bit_length n - 1) < 2 ^ k"
    by linarith
  then have "bit_length n - 1 < k" by simp
  then show ?thesis by simp
qed

lemma bit_length_gt:
  assumes "2 ^ k \<le> n"
  shows "k < bit_length n"
proof -
  have "(0::int) < 2 ^ k" by simp
  with assms have "0 < n" by linarith
  from bit_length_bounds [OF this] assms have "(2::int) ^ k < 2 ^ bit_length n"
    by linarith
  then show ?thesis by simp
qed

lemma round_half_even_0: "round_half_even n 0 = n"
  by (simp add: round_half_even_def)

lemma round_half_even_near: "2 * \<bar>round_half_even n k - n\<bar> \<le> 2 ^ k"
proof -
  define P :: int where "P = 2 ^ k"
  define q where "q = n div P"
  define r where "r = n mod P"
  have P: "0 < P" by (simp add: P_def)
  have n: "n = q * P + r" by (simp add: q_def r_def)
  have r: "0 \<le> r" "r < P" using P by (simp_all add: r_def)
  have "2 * \<bar>(if 2 * r > P \<or> (2 * r = P \<and> odd q) then (q + 1) * P else q * P) - n\<bar> \<le> P"
    using r by (auto simp: n algebra_simps)
  then show ?thesis
    unfolding round_half_even_def Let_def P_def [symmetric] q_def [symmetric] r_def [symmetric] .
qed

lemma round_half_even_lower:
  assumes "a * 2 ^ k \<le> n"
  shows "a * 2 ^ k \<le> round_half_even n k"
proof -
  define P :: int where "P = 2 ^ k"
  have P: "0 < P" by (simp add: P_def)
  from assms have "a * P \<le> n" by (simp add: P_def)
  then have "(a * P) div P \<le> n div P"
    using P by (rule zdiv_mono1)
  then have "a \<le> n div P"
    using P by simp
  then have "a * P \<le> (n div P) * P"
    using P by (simp add: mult_right_mono)
  moreover have "(n div P) * P \<le> (n div P + 1) * P"
    using P by (simp add: algebra_simps)
  ultimately show ?thesis
    unfolding round_half_even_def Let_def P_def [symmetric] by auto
qed

lemma round_half_even_up:
  assumes "0 < w" "2 * w < 2 ^ k" "n = a * 2 ^ k - w"
  shows "round_half_even n k = a * 2 ^ k"
proof -
  define P :: int where "P = 2 ^ k"
  have P: "0 < P" by (simp add: P_def)
  have n: "n = P * (a - 1) + (P - w)"
    using assms by (simp add: P_def algebra_simps)
  have w: "0 \<le> P - w" "P - w < P"
    using assms by (simp_all add: P_def)
  have q: "n div P = a - 1"
    using n w by (metis int_div_pos_eq)
  have r: "n mod P = P - w"
    using n w by (metis int_mod_pos_eq)
  have "2 * (P - w) > P"
    using assms by (simp add: P_def)
  then show ?thesis
    by (simp add: round_half_even_def Let_def P_def [symmetric] q r)
qed

lemma div_between:
  fixes m T K :: int
  assumes "K * T \<le> m" "m < (K + 1) * T"
  shows "m div T = K"
proof -
  have "m = T * K + (m - K * T)" by simp
  moreover have "0 \<le> m - K * T" using assms by simp
  moreover have "m - K * T < T" using assms by (simp add: algebra_simps)
  ultimately show ?thesis by (metis int_div_pos_eq)
qed

lemma float64_of_int_exact:
  assumes "0 \<le> v" "v < 2 ^ 53"
  shows "float64_of_int v = v"
proof -
  have "bit_length v \<le> 53" using assms by (rule bit_length_le)
  then have "round53 v = v" by (simp add: round53_def round_half_even_0)
  with assms show ?thesis by (cases "v = 0") (simp_all add: float64_of_int_def)
qed

lemma round53_times_1_2:
  assumes v: "0 < v" "v < 2 ^ 50"
  shows "(6 * v div 5) * 2 ^ 52 \<le> round53 (v * float64_1_2_numerator) \<and>
         round53 (v * float64_1_2_numerator) < (6 * v div 5 + 1) * 2 ^ 52"
proof -
  define T :: int where "T = 2 ^ 52"
  define n where "n = v * float64_1_2_numerator"
  define K where "K = 6 * v div 5"
  define \<rho> where "\<rho> = 6 * v mod 5"
  define k where "k = bit_length n - 53"
  define P :: int where "P = 2 ^ k"
  define m where "m = round_half_even n k"
  have Tnum: "T = 4503599627370496" by (simp add: T_def)
  have five_n: "5 * n = 6 * v * T - v"
    by (simp add: n_def float64_1_2_numerator_def Tnum)
  have K\<rho>: "6 * v = 5 * K + \<rho>" "0 \<le> \<rho>" "\<rho> < 5"
    by (simp_all add: K_def \<rho>_def)
  have n_lo: "2 ^ 52 \<le> n"
    using v by (simp add: n_def float64_1_2_numerator_def)
  have n_hi: "n < 2 ^ 103"
  proof -
    have "v * float64_1_2_numerator < 2 ^ 50 * 2 ^ 53"
      using v by (intro mult_strict_mono) (simp_all add: float64_1_2_numerator_def)
    then show ?thesis by (simp add: n_def)
  qed
  have bl_lo: "53 \<le> bit_length n"
    using bit_length_gt [OF n_lo] by simp
  have bl_hi: "bit_length n \<le> 103"
    using n_lo n_hi by (intro bit_length_le) simp_all
  have k: "k \<le> 50" "bit_length n = k + 53"
    using bl_lo bl_hi by (simp_all add: k_def)
  have npos: "0 < n" using n_lo by simp
  have n_bounds: "P * 2 ^ 52 \<le> n" "n < P * 2 ^ 53"
    using bit_length_bounds [OF npos] k by (simp_all add: P_def power_add)
  have Ppos: "0 < P" by (simp add: P_def)
  have "(2::int) ^ k \<le> 2 ^ 50"
    using k by (intro power_increasing) simp_all
  then have P50: "P \<le> 1125899906842624"
    by (simp add: P_def)
  have TP: "T = 2 ^ (52 - k) * P"
    using k by (simp add: T_def P_def power_add [symmetric])
  have near: "2 * \<bar>m - n\<bar> \<le> P"
    unfolding m_def P_def by (rule round_half_even_near)
  have goal: "K * T \<le> m \<and> m < (K + 1) * T"
  proof (cases "\<rho> = 0")
    case True
    define w where "w = v div 5"
    have vw: "v = 5 * w"
    proof -
      from True K\<rho> have "6 * v = 5 * K" by simp
      then have "5 dvd 6 * v" by simp
      then have "5 dvd v"
        by presburger
      then show ?thesis by (simp add: w_def)
    qed
    with K\<rho> True have K: "K = 6 * w" by simp
    have wpos: "0 < w" using v vw by simp
    have n_eq: "n = K * T - w"
      using five_n vw K by simp
    have "w * 2 ^ 54 \<le> n"
      using wpos by (simp add: n_eq K Tnum)
    with n_bounds have "w * 2 ^ 54 < P * 2 ^ 53" by linarith
    then have w_small: "2 * w < P" by simp
    have "n = (K * 2 ^ (52 - k)) * 2 ^ k - w"
      using n_eq TP by (simp add: P_def algebra_simps)
    from round_half_even_up [OF wpos _ this] w_small
    have "m = (K * 2 ^ (52 - k)) * 2 ^ k"
      by (simp add: m_def P_def)
    then have "m = K * T"
      using TP by (simp add: P_def algebra_simps)
    then show ?thesis by (simp add: T_def)
  next
    case False
    with K\<rho> have \<rho>: "1 \<le> \<rho>" "\<rho> \<le> 4" by simp_all
    have five: "5 * n = 5 * K * T + \<rho> * T - v"
    proof -
      have "6 * v * T = (5 * K + \<rho>) * T" using K\<rho> by simp
      then show ?thesis using five_n by (simp add: algebra_simps)
    qed
    have \<rho>T: "1 * T \<le> \<rho> * T" "\<rho> * T \<le> 4 * T"
      using \<rho> by (simp_all add: T_def)
    have vT: "v < T" using v by (simp add: Tnum)
    have "5 * (K * T) \<le> 5 * n"
      using five \<rho>T vT by linarith
    then have "K * T \<le> n" by simp
    then have "(K * 2 ^ (52 - k)) * 2 ^ k \<le> n"
      using TP by (simp add: P_def algebra_simps)
    then have "(K * 2 ^ (52 - k)) * 2 ^ k \<le> m"
      unfolding m_def by (rule round_half_even_lower)
    then have lower: "K * T \<le> m"
      using TP by (simp add: P_def algebra_simps)
    from near have "2 * (m - n) \<le> P"
      by (simp add: abs_if split: if_splits)
    then have "2 * m \<le> 2 * n + P" by simp
    then have "10 * m \<le> 10 * n + 5 * P" by linarith
    also have "\<dots> = 10 * K * T + 2 * (\<rho> * T) - 2 * v + 5 * P"
      using five by linarith
    also have "\<dots> < 10 * K * T + 10 * T"
      using \<rho>T v P50 by (simp add: Tnum)
    finally have "10 * m < 10 * ((K + 1) * T)" by (simp add: algebra_simps)
    then have "m < (K + 1) * T" by simp
    with lower show ?thesis by simp
  qed
  then show ?thesis
    by (simp add: m_def k_def round53_def n_def K_def T_def)
qed

lemma maxrateKbps_floor:
  assumes "0 \<le> v" "v < 2 ^ 50"
  shows "maxrateKbps v = Some (6 * v div 5)"
proof (cases "v = 0")
  case True
  have "maxrateKbps 0 = Some 0" by code_simp
  with True show ?thesis by simp
next
  case False
  with assms have v: "0 < v" by simp
  have "v < 2 ^ 53" using assms by simp
  with assms have f: "float64_of_int v = v" by (simp add: float64_of_int_exact)
  define m where "m = round53 (v * float64_1_2_numerator)"
  from round53_times_1_2 [OF v assms(2)]
  have b: "(6 * v div 5) * 2 ^ 52 \<le> m" "m < (6 * v div 5 + 1) * 2 ^ 52"
    by (simp_all add: m_def)
  then have d: "m div 2 ^ 52 = 6 * v div 5"
    by (intro div_between) simp_all
  have K: "0 \<le> 6 * v div 5" "6 * v div 5 < 2 ^ 53"
    using assms by simp_all
  have "0 \<le> (6 * v div 5) * 2 ^ 52" using K by simp
  with b have mpos: "0 \<le> m" by linarith
  have mul: "float64_mul_1_2 v = m"
    using v by (simp add: float64_mul_1_2_def m_def)
  have "in_int64 (6 * v div 5)"
    using K by (simp add: in_int64_def minInt64_def maxInt64_def)
  then show ?thesis
    using mpos d
    by (cases "m = 0") (simp_all add: maxrateKbps_def f mul int_of_float64_def Let_def)
qed

text \<open>
  Claim C5, as the code has it. The maximum rate is not rounded up: the \<^verbatim>\<open>float64\<close>
  product \<open>v * 1.2\<close> is truncated by the conversion to \<^verbatim>\<open>int\<close>, which for a bitrate
  \<open>0 \<le> v < 2^50\<close> is the integer part \<open>6 * v div 5\<close> of \<open>v * 1.2\<close>. The buffer size is
  \<open>v * 2\<close> and the GOP size is \<open>fps * s\<close>, inside the range of \<^verbatim>\<open>int\<close>. For \<open>v = 6000\<close>,
  \<open>fps = 30\<close>, \<open>s = 4\<close> the values are 7200, 12000 and 120.
\<close>

theorem derived_parameters_amended:
  "(0 \<le> v \<and> v < 2 ^ 50 \<longrightarrow> maxrateKbps v = Some (6 * v div 5)) \<and>
   (in_int64 (v * 2) \<longrightarrow> bufsizeKbps v = v * 2) \<and>
   (in_int64 (fps * s) \<longrightarrow> gopSize fps s = fps * s) \<and>
   maxrateKbps 6000 = Some 7200 \<and> bufsizeKbps 6000 = 12000 \<and> gopSize 30 4 = 120"
proof (intro conjI impI)
  assume "0 \<le> v \<and> v < 2 ^ 50"
  then show "maxrateKbps v = Some (6 * v div 5)"
    by (simp add: maxrateKbps_floor)
next
  assume "in_int64 (v * 2)"
  then show "bufsizeKbps v = v * 2"
    by (simp add: bufsizeKbps_def go_mul_def int64_wrap_id)
next
  assume "in_int64 (fps * s)"
  then show "gopSize fps s = fps * s"
    by (simp add: gopSize_def go_mul_def int64_wrap_id)
next
  show "maxrateKbps 6000 = Some 7200"
    using maxrateKbps_floor [of 6000] by simp
next
  show "bufsizeKbps 6000 = 12000"
    by (simp add: bufsizeKbps_def go_mul_def int64_wrap_def)
next
  show "gopSize 30 4 = 120"
    by (simp add: gopSize_def go_mul_def int64_wrap_def)
qed

theorem derived_parameters_amended_witness:
  "(0::int) \<le> 16000 \<and> (16000::int) < 2 ^ 50 \<and> maxrateKbps 16000 = Some 19200 \<and>
   in_int64 (16000 * 2) \<and> bufsizeKbps 16000 = 32000 \<and>
   in_int64 (25 * 4) \<and> gopSize 25 4 = 100"
proof -
  have 1: "in_int64 (16000 * 2)" "in_int64 (25 * 4)"
    by (simp_all add: in_int64_def minInt64_def maxInt64_def)
  show ?thesis
    using 1 derived_parameters_amended [of 16000 25 4] by simp
qed

text \<open>
  Claim C5 as stated fails: for a bitrate of 1 kbps the maximum rate is 1, while the
  least integer not below \<open>1 * 1.2\<close> is 2.
\<close>

theorem maxrate_ceiling_counterexample:
  "maxrateKbps 1 = Some 1 \<and> ceil_times_1_2 1 = 2"
proof
  show "maxrateKbps 1 = Some 1"
    by code_simp
  show "ceil_times_1_2 1 = 2"
    by (simp add: ceil_times_1_2_def ceiling_eq_iff)
qed

lemma int64_wrap_mod: "int64_wrap x mod 18446744073709551616 = x mod 18446744073709551616"
proof -
  have "int64_wrap x = (x + 9223372036854775808) mod 18446744073709551616 - 9223372036854775808"
    by (simp add: int64_wrap_def)
  then have "int64_wrap x mod 18446744073709551616
      = ((x + 9223372036854775808) mod 18446744073709551616 - 9223372036854775808) mod 18446744073709551616"
    by simp
  also have "\<dots> = (x + 9223372036854775808 - 9223372036854775808) mod 18446744073709551616"
    by (rule mod_diff_left_eq)
  finally show ?thesis by simp
qed

lemma int64_wrap_cong:
  assumes "x mod 18446744073709551616 = y mod 18446744073709551616"
  shows "int64_wrap x = int64_wrap y"
proof -
  have "(x + 9223372036854775808) mod 18446744073709551616
      = (y + 9223372036854775808) mod 18446744073709551616"
    using assms mod_add_cong by blast
  then show ?thesis by (simp add: int64_wrap_def)
qed

lemma go_bandwidth: "go_mul (go_add v 128) 1000 = int64_wrap (bandwidthBps v)"
proof -
  have "(int64_wrap (v + 128) * 1000) mod 18446744073709551616
      = ((v + 128) * 1000) mod 18446744073709551616"
    using int64_wrap_mod [of "v + 128"] mod_mult_cong by blast
  then show ?thesis
    unfolding go_mul_def go_add_def bandwidthBps_def by (rule int64_wrap_cong)
qed

lemma playlist_loop_entries:
  assumes "rest = drop i (Outputs cfg)"
    and "length (Outputs cfg) \<le> length (Resolutions cfg)"
    and "length (Outputs cfg) \<le> length (Bitrates cfg)"
  shows "playlist_loop cfg i rest buffer =
     Inr (buffer @ concat (map (\<lambda>j.
            manifest_entry (int64_wrap (bandwidthBps (ParseBitrate (Bitrates cfg ! j))))
              (Resolutions cfg ! j) (Base (Outputs cfg ! j) @ ''.m3u8''))
          [i..<length (Outputs cfg)]))"
  using assms
proof (induction rest arbitrary: i buffer)
  case Nil
  then have "length (Outputs cfg) \<le> i" by simp
  then show ?case by simp
next
  case (Cons p rest)
  from Cons.prems(1) have i: "i < length (Outputs cfg)"
    by (metis drop_all list.distinct(1) not_le)
  with Cons.prems(1) have p: "p = Outputs cfg ! i" and rest: "rest = drop (Suc i) (Outputs cfg)"
    by (simp_all add: Cons_nth_drop_Suc [symmetric])
  have upt: "[i..<length (Outputs cfg)] = i # [Suc i..<length (Outputs cfg)]"
    using i by (simp add: upt_conv_Cons)
  show ?case
    using i Cons.prems(2,3) Cons.IH [OF rest Cons.prems(2,3)]
    by (simp add: Let_def upt p go_bandwidth manifest_entry_def)
qed

lemma Split_last: "c \<notin> set f \<Longrightarrow> Split (a @ c # f) c = Split a c @ [f]"
proof (induction a)
  case Nil
  then show ?case by (induction f) auto
next
  case (Cons x xs)
  have ne: "Split xs c \<noteq> []" by (induction xs) auto
  from Cons show ?case using ne by (cases "Split xs c") auto
qed

lemma Split_plain: "c \<notin> set f \<Longrightarrow> Split f c = [f]"
  by (induction f) auto

lemma clean_elems_snoc:
  assumes "e \<noteq> []" "e \<noteq> ''.''" "e \<noteq> ''..''"
  shows "clean_elems rooted out (es @ [e]) = clean_elems rooted out es @ [e]"
  using assms by (induction es arbitrary: out) auto

lemma join_elems_snoc: "join_elems (xs @ [f]) = (if xs = [] then f else join_elems xs @ ''/'' @ f)"
  by (induction xs rule: join_elems.induct) auto

lemma Base_suffix:
  assumes "f \<noteq> []" "CHR ''/'' \<notin> set f" "pre = [] \<or> last pre = CHR ''/''"
  shows "Base (pre @ f) = f"
proof -
  have 1: "dropWhile (\<lambda>c. c = CHR ''/'') (rev f @ rev pre) = rev f @ rev pre"
    using assms(1,2) by (cases "rev f") (auto simp: rev_eq_Cons_iff)
  have 2: "takeWhile (\<lambda>c. c \<noteq> CHR ''/'') (rev f @ rev pre) = rev f"
  proof (cases "pre = []")
    case True
    then show ?thesis using assms(2) by (auto simp: takeWhile_eq_all_conv)
  next
    case False
    with assms(3) have "hd (rev pre) = CHR ''/''" by (simp add: hd_rev)
    with False have "takeWhile (\<lambda>c. c \<noteq> CHR ''/'') (rev pre) = []"
      by (cases "rev pre") auto
    with assms(2) show ?thesis by (subst takeWhile_append2) auto
  qed
  show ?thesis
    using assms(1) by (simp add: Base_def Let_def 1 2)
qed

lemma Clean_last:
  assumes f: "f \<noteq> []" "CHR ''/'' \<notin> set f" "f \<noteq> ''.''" "f \<noteq> ''..''"
    and p: "p = f \<or> (\<exists>a. p = a @ CHR ''/'' # f)"
  shows "\<exists>pre. Clean p = pre @ f \<and> (pre = [] \<or> last pre = CHR ''/'')"
proof -
  define rooted where "rooted = (p \<noteq> [] \<and> hd p = CHR ''/'')"
  obtain es where es: "Split p (CHR ''/'') = es @ [f]"
    using p f(2) by (auto simp: Split_plain Split_last)
  define xs where "xs = clean_elems rooted [] es"
  have out: "join_elems (clean_elems rooted [] (Split p (CHR ''/''))) =
             (if xs = [] then f else join_elems xs @ ''/'' @ f)"
    using f by (simp add: es clean_elems_snoc join_elems_snoc xs_def)
  show ?thesis
  proof (cases rooted)
    case True
    then have "Clean p = (CHR ''/'' # (if xs = [] then [] else join_elems xs @ ''/'')) @ f"
      using out by (simp add: Clean_def Let_def rooted_def)
    then show ?thesis by (intro exI [of _ "CHR ''/'' # (if xs = [] then [] else join_elems xs @ ''/'')"]) auto
  next
    case False
    then have "Clean p = (if xs = [] then [] else join_elems xs @ ''/'') @ f"
      using out f(1) by (auto simp: Clean_def Let_def rooted_def)
    then show ?thesis by (intro exI [of _ "if xs = [] then [] else join_elems xs @ ''/''"]) auto
  qed
qed

lemma Base_Join_file:
  assumes f: "f \<noteq> []" "CHR ''/'' \<notin> set f" "f \<noteq> ''.''" "f \<noteq> ''..''"
  shows "Base (Join d f) = f"
proof -
  have "Join d f = Clean f \<or> Join d f = Clean (d @ CHR ''/'' # f)"
    using f(1) by (auto simp: Join_def)
  then obtain p where p: "Join d f = Clean p" "p = f \<or> (\<exists>a. p = a @ CHR ''/'' # f)"
    by auto
  from Clean_last [OF f p(2)] obtain pre where
    "Clean p = pre @ f" "pre = [] \<or> last pre = CHR ''/''" by blast
  with p(1) f show ?thesis by (simp add: Base_suffix)
qed

lemma Base_plain: "plain_name n \<Longrightarrow> Base n = n"
  using Base_suffix [of n "[]"] by (simp add: plain_name_def)

lemma playlist_name:
  assumes "plain_name n"
  shows "Base n @ ''.m3u8'' = Base (Join d (n @ ''.m3u8''))"
proof -
  have "Base (Join d (n @ ''.m3u8'')) = n @ ''.m3u8''"
    using assms by (intro Base_Join_file) (auto simp: plain_name_def append_eq_Cons_conv)
  with assms show ?thesis by (simp add: Base_plain)
qed

text \<open>
  Claim C6. When the resolution and bitrate lists are at least as long as the output
  list (a shorter one panics), the master manifest is the two-line preamble followed,
  for each rendition in ladder order, by the stream header with
  \<open>BANDWIDTH=(videoBitrateKbps+128)*1000\<close> (in the arithmetic of \<^verbatim>\<open>int\<close>: exactly that
  number whenever it is inside the range) and the resolution, and by a line with the
  base name of the rendition's playlist, and nothing else. For a plain output name that
  line is the file name of the playlist the encoder is told to write. For the ladder of
  \<^verbatim>\<open>NewVideoProcessor\<close> the bandwidths are 16128000 and 6128000.
\<close>

theorem master_playlist_contents:
  "(length (Outputs cfg) \<le> length (Resolutions cfg) \<and>
    length (Outputs cfg) \<le> length (Bitrates cfg) \<longrightarrow>
      master_playlist_buffer cfg =
        Inr (''#EXTM3U'' @ newline @ ''#EXT-X-VERSION:3'' @ newline @
             concat (map (\<lambda>i.
                 manifest_entry (int64_wrap (bandwidthBps (ParseBitrate (Bitrates cfg ! i))))
                   (Resolutions cfg ! i) (Base (Outputs cfg ! i) @ ''.m3u8''))
               [0..<length (Outputs cfg)]))) \<and>
   (in_int64 (bandwidthBps v) \<longrightarrow> int64_wrap (bandwidthBps v) = bandwidthBps v) \<and>
   (plain_name n \<longrightarrow> Base n @ ''.m3u8'' = Base (Join d (n @ ''.m3u8''))) \<and>
   master_playlist_buffer (Config NewVideoProcessor) =
     Inr (''#EXTM3U'' @ newline @ ''#EXT-X-VERSION:3'' @ newline @
          ''#EXT-X-STREAM-INF:BANDWIDTH=16128000,RESOLUTION=1920x1080'' @ newline @
          ''1080.m3u8'' @ newline @
          ''#EXT-X-STREAM-INF:BANDWIDTH=6128000,RESOLUTION=1280x720'' @ newline @
          ''720.m3u8'' @ newline)"
proof (intro conjI impI)
  assume "length (Outputs cfg) \<le> length (Resolutions cfg) \<and>
          length (Outputs cfg) \<le> length (Bitrates cfg)"
  then show "master_playlist_buffer cfg =
        Inr (''#EXTM3U'' @ newline @ ''#EXT-X-VERSION:3'' @ newline @
             concat (map (\<lambda>i.
                 manifest_entry (int64_wrap (bandwidthBps (ParseBitrate (Bitrates cfg ! i))))
                   (Resolutions cfg ! i) (Base (Outputs cfg ! i) @ ''.m3u8''))
               [0..<length (Outputs cfg)]))"
    unfolding master_playlist_buffer_def
    by (subst playlist_loop_entries) simp_all
next
  assume "in_int64 (bandwidthBps v)"
  then show "int64_wrap (bandwidthBps v) = bandwidthBps v"
    by (rule int64_wrap_id)
next
  assume "plain_name n"
  then show "Base n @ ''.m3u8'' = Base (Join d (n @ ''.m3u8''))"
    by (rule playlist_name)
next
  show "master_playlist_buffer (Config NewVideoProcessor) =
     Inr (''#EXTM3U'' @ newline @ ''#EXT-X-VERSION:3'' @ newline @
          ''#EXT-X-STREAM-INF:BANDWIDTH=16128000,RESOLUTION=1920x1080'' @ newline @
          ''1080.m3u8'' @ newline @
          ''#EXT-X-STREAM-INF:BANDWIDTH=6128000,RESOLUTION=1280x720'' @ newline @
          ''720.m3u8'' @ newline)"
    by code_simp
qed

theorem master_playlist_contents_witness:
  "length (Outputs (Config NewVideoProcessor)) \<le> length (Resolutions (Config NewVideoProcessor)) \<and>
   length (Outputs (Config NewVideoProcessor)) \<le> length (Bitrates (Config NewVideoProcessor)) \<and>
   master_playlist_buffer (Config NewVideoProcessor) =
     Inr (''#EXTM3U'' @ newline @ ''#EXT-X-VERSION:3'' @ newline @
          concat (map (\<lambda>i.
              manifest_entry
                (int64_wrap (bandwidthBps (ParseBitrate (Bitrates (Config NewVideoProcessor) ! i))))
                (Resolutions (Config NewVideoProcessor) ! i)
                (Base (Outputs (Config NewVideoProcessor) ! i) @ ''.m3u8''))
            [0..<length (Outputs (Config NewVideoProcessor))])) \<and>
   in_int64 (bandwidthBps 16000) \<and> int64_wrap (bandwidthBps 16000) = 16128000 \<and>
   plain_name ''1080'' \<and>
   Base ''1080'' @ ''.m3u8'' = Base (Join ''./output'' (''1080'' @ ''.m3u8''))"
proof -
  have 1: "length (Outputs (Config NewVideoProcessor)) \<le> length (Resolutions (Config NewVideoProcessor))"
    "length (Outputs (Config NewVideoProcessor)) \<le> length (Bitrates (Config NewVideoProcessor))"
    by (simp_all add: NewVideoProcessor_def)
  have 2: "in_int64 (bandwidthBps 16000)" "bandwidthBps 16000 = 16128000"
    by (simp_all add: in_int64_def bandwidthBps_def minInt64_def maxInt64_def)
  have 3: "plain_name ''1080''"
    by (simp add: plain_name_def)
  show ?thesis
    using 1 2 3
      master_playlist_contents [of "Config NewVideoProcessor" 16000 "''1080''" "''./output''"]
    by simp
qed

end
